theory Spec2Isabelle
  imports Complex_Main
begin

section \<open>Arrays, indexing and errors\<close>

text \<open>
  The program is \<^verbatim>\<open>src/main.py\<close>: a direct Fourier summation of an irregularly sampled
  time series, a CLEAN loop over the resulting spectrum, and a reconstruction with a
  Gaussian beam. NumPy arrays of \<^verbatim>\<open>float64\<close> and \<^verbatim>\<open>complex128\<close> are modelled as lists of
  \<^typ>\<open>real\<close> and \<^typ>\<open>complex\<close>: arithmetic is exact, there is no rounding, no
  infinity and no NaN. Python exceptions are values of type \<open>error\<close>.
\<close>

datatype error = ValueError | IndexError | NotANumber

text \<open>
  \<open>NotANumber\<close> is not an exception: where the source divides zero by zero it goes on
  with NaN entries, which no real or complex number stands for, and the model stops there
  with this value.
\<close>

text \<open>\<^verbatim>\<open>a[i]\<close> with an integer index: a negative index counts from the end, an index
  outside \<^verbatim>\<open>[-len, len)\<close> raises IndexError.\<close>

definition getitem :: "'a list \<Rightarrow> int \<Rightarrow> error + 'a" where
  "getitem xs i =
     (let n = int (length xs); k = (if i < 0 then i + n else i)
      in if 0 \<le> k \<and> k < n then Inr (xs ! nat k) else Inl IndexError)"

text \<open>\<^verbatim>\<open>a[i] = v\<close>, same index rule.\<close>

definition setitem :: "'a list \<Rightarrow> int \<Rightarrow> 'a \<Rightarrow> error + 'a list" where
  "setitem xs i v =
     (let n = int (length xs); k = (if i < 0 then i + n else i)
      in if 0 \<le> k \<and> k < n then Inr (xs[nat k := v]) else Inl IndexError)"

subsection \<open>\<^verbatim>\<open>np.argmax\<close> on a complex array\<close>

text \<open>
  NumPy orders complex numbers lexicographically (real part first, then imaginary part);
  \<^verbatim>\<open>argmax\<close> scans from the left, keeps the first element as the running maximum and
  replaces it only by a strictly greater one, so it returns the first index of the maximum.
  On an empty array it raises ValueError.
\<close>

definition cgreater :: "complex \<Rightarrow> complex \<Rightarrow> bool" where
  "cgreater a b \<longleftrightarrow> Re a > Re b \<or> (Re a = Re b \<and> Im a > Im b)"

primrec argmax_scan :: "complex list \<Rightarrow> nat \<Rightarrow> nat \<Rightarrow> complex \<Rightarrow> nat" where
  "argmax_scan [] i mi mp = mi"
| "argmax_scan (x # xs) i mi mp =
     (if cgreater x mp then argmax_scan xs (Suc i) i x else argmax_scan xs (Suc i) mi mp)"

definition argmax :: "complex list \<Rightarrow> error + nat" where
  "argmax xs = (case xs of [] \<Rightarrow> Inl ValueError | x # rest \<Rightarrow> Inr (argmax_scan rest 1 0 x))"

section \<open>The CLEAN loop (lines 116 to 155)\<close>

text \<open>
  The loop's variables. \<open>clean_components\<close> and \<open>residual\<close> are the two arrays of the
  source. \<open>warnings\<close> is the effect of \<^verbatim>\<open>log.warning('EEK, divide by zero for iter = %i!', i)\<close>:
  the list of iteration numbers named by the diagnostics emitted so far. \<open>subtracted\<close>
  is a history of the local array \<^verbatim>\<open>sub\<close>, one entry per completed iteration, oldest first;
  the source overwrites \<^verbatim>\<open>sub\<close> each time, the model keeps the values so that the
  accounting of the residual can be stated. No computation reads it.
\<close>

record clean_state =
  clean_components :: "complex list"
  residual :: "complex list"
  warnings :: "nat list"
  subtracted :: "complex list list"

datatype 's ctl = Next 's | Break 's

text \<open>Lines 120 and 121: \<^verbatim>\<open>c = amps.shape[0] // 2; idx_max = c + np.argmax(residual[c:])\<close>.\<close>

definition find_peak :: "complex list \<Rightarrow> complex list \<Rightarrow> error + nat" where
  "find_peak amps res =
     (let c = length amps div 2
      in case argmax (drop c res) of Inl e \<Rightarrow> Inl e | Inr k \<Rightarrow> Inr (c + k))"

text \<open>The three places where the loop indexes the PSF (lines 128, 149, 150).\<close>

definition coupling_index :: "nat \<Rightarrow> int" where
  "coupling_index idx_max = int idx_max * 2"

definition diff_index :: "nat \<Rightarrow> nat \<Rightarrow> nat \<Rightarrow> int" where
  "diff_index fsize j idx_max = int j - int idx_max + (int fsize - 1)"

definition sum_index :: "nat \<Rightarrow> nat \<Rightarrow> int" where
  "sum_index j idx_max = int j + int idx_max"

text \<open>
  Lines 120 to 131: the peak index, the residual there, \<^verbatim>\<open>psf_mag = np.abs(psf[idx_max * 2])\<close>
  and \<^verbatim>\<open>temp = 1 - psf_mag**2\<close>.
\<close>

definition locate :: "complex list \<Rightarrow> complex list \<Rightarrow> complex list
    \<Rightarrow> error + (nat \<times> complex \<times> real \<times> real)" where
  "locate psf amps res =
     (case find_peak amps res of Inl e \<Rightarrow> Inl e | Inr idx_max \<Rightarrow>
      case getitem res (int idx_max) of Inl e \<Rightarrow> Inl e | Inr res_amp \<Rightarrow>
      case getitem psf (coupling_index idx_max) of Inl e \<Rightarrow> Inl e | Inr w \<Rightarrow>
        (let psf_mag = cmod w; temp = 1 - psf_mag ^ 2
         in Inr (idx_max, res_amp, psf_mag, temp)))"

text \<open>
  Lines 138 to 141. \<^verbatim>\<open>psf_mag\<close> is a \<^verbatim>\<open>float64\<close>; its attributes \<^verbatim>\<open>.real\<close> and \<^verbatim>\<open>.imag\<close> are
  the real and imaginary part of that real number seen as a complex one.
\<close>

definition corrected_amp :: "complex \<Rightarrow> real \<Rightarrow> real \<Rightarrow> real \<times> real" where
  "corrected_amp res_amp psf_mag temp =
     (let aRe = Re res_amp * (1 - Re (complex_of_real psf_mag))
                  - Im res_amp * Im (complex_of_real psf_mag);
          aRe = aRe / temp;
          aIm = Im res_amp * (1 + Re (complex_of_real psf_mag))
                  - Re res_amp * Im (complex_of_real psf_mag);
          aIm = aIm / temp
      in (aRe, aIm))"

text \<open>Lines 148 to 154: the loop over \<^verbatim>\<open>j\<close> that fills \<^verbatim>\<open>sub\<close>.\<close>

fun sub_loop :: "complex list \<Rightarrow> nat \<Rightarrow> real \<Rightarrow> real \<times> real \<Rightarrow> nat
    \<Rightarrow> nat list \<Rightarrow> complex list \<Rightarrow> error + complex list" where
  "sub_loop psf fsize gain a idx_max [] sub = Inr sub"
| "sub_loop psf fsize gain a idx_max (j # js) sub =
     (case getitem psf (diff_index fsize j idx_max) of Inl e \<Rightarrow> Inl e | Inr w1 \<Rightarrow>
      case getitem psf (sum_index j idx_max) of Inl e \<Rightarrow> Inl e | Inr w2 \<Rightarrow>
        (let re = fst a * (Re w1 + Re w2) + snd a * (Im w2 - Im w1);
             im = fst a * (Im w1 + Im w2) + snd a * (Re w1 - Re w2)
         in case setitem sub (int j) (Complex re im * complex_of_real gain) of
              Inl e \<Rightarrow> Inl e
            | Inr sub' \<Rightarrow> sub_loop psf fsize gain a idx_max js sub'))"

text \<open>One pass through the body of \<^verbatim>\<open>for i in range(num_iter)\<close>.\<close>

definition clean_body :: "real \<Rightarrow> complex list \<Rightarrow> complex list \<Rightarrow> nat
    \<Rightarrow> nat \<Rightarrow> clean_state \<Rightarrow> error + clean_state ctl" where
  "clean_body gain psf amps fsize i st =
     (case locate psf amps (residual st) of Inl e \<Rightarrow> Inl e
      | Inr (idx_max, res_amp, psf_mag, temp) \<Rightarrow>
        if temp = 0 then Inr (Break (st\<lparr>warnings := warnings st @ [i]\<rparr>))
        else
          (let a = corrected_amp res_amp psf_mag temp
           in case getitem (clean_components st) (int idx_max) of Inl e \<Rightarrow> Inl e | Inr old \<Rightarrow>
              case setitem (clean_components st) (int idx_max)
                     (old + Complex (fst a) (snd a) * complex_of_real gain) of
                Inl e \<Rightarrow> Inl e
              | Inr comps \<Rightarrow>
                 (case sub_loop psf fsize gain a idx_max [0..<fsize]
                         (replicate (length (residual st)) 0) of
                    Inl e \<Rightarrow> Inl e
                  | Inr sub \<Rightarrow>
                     Inr (Next (st\<lparr>clean_components := comps,
                                   residual := map2 (-) (residual st) sub,
                                   subtracted := subtracted st @ [sub]\<rparr>)))))"

fun for_range :: "(nat \<Rightarrow> 's \<Rightarrow> error + 's ctl) \<Rightarrow> nat list \<Rightarrow> 's \<Rightarrow> error + 's" where
  "for_range body [] s = Inr s"
| "for_range body (i # is) s =
     (case body i s of
        Inl e \<Rightarrow> Inl e
      | Inr (Break s') \<Rightarrow> Inr s'
      | Inr (Next s') \<Rightarrow> for_range body is s')"

text \<open>
  Lines 116 to 155. \<open>fsize\<close> is \<^verbatim>\<open>freqs.size\<close>; in \<^verbatim>\<open>main\<close> it equals the length of \<^verbatim>\<open>amps\<close>,
  which is made by \<^verbatim>\<open>np.zeros_like(freqs)\<close>. \<^verbatim>\<open>range(num_iter)\<close> is empty for
  \<^verbatim>\<open>num_iter \<le> 0\<close>.
\<close>

definition init_state :: "complex list \<Rightarrow> clean_state" where
  "init_state amps =
     \<lparr>clean_components = replicate (length amps) 0, residual = amps,
      warnings = [], subtracted = []\<rparr>"

definition clean :: "real \<Rightarrow> int \<Rightarrow> complex list \<Rightarrow> complex list \<Rightarrow> nat
    \<Rightarrow> error + clean_state" where
  "clean gain num_iter psf amps fsize =
     for_range (clean_body gain psf amps fsize) [0..<nat num_iter] (init_state amps)"

section \<open>The spectral estimator (lines 90 to 105)\<close>

text \<open>\<^verbatim>\<open>np.arange(lo, hi) * inc\<close>: the integers from \<open>lo\<close> up to \<open>hi - 1\<close>, scaled.\<close>

definition arange_scaled :: "int \<Rightarrow> int \<Rightarrow> real \<Rightarrow> real list" where
  "arange_scaled lo hi inc = map (\<lambda>k. real_of_int k * inc) [lo..hi - 1]"

definition freqs_grid :: "int \<Rightarrow> real \<Rightarrow> real list" where
  "freqs_grid num_freqs freq_inc = arange_scaled (- num_freqs) (num_freqs + 1) freq_inc"

definition freqs_psf_grid :: "int \<Rightarrow> real \<Rightarrow> real list" where
  "freqs_psf_grid num_freqs freq_inc =
     arange_scaled (- num_freqs * 2) (num_freqs * 2 + 1) freq_inc"

text \<open>\<^verbatim>\<open>phase = np.exp(-1j * 2 * math.pi * f * times)\<close>; the sample times are \<open>ts\<close>, the
  sample values \<open>vals\<close>.\<close>

definition phase :: "real \<Rightarrow> real list \<Rightarrow> complex list" where
  "phase f ts =
     map (\<lambda>t. exp (- \<i> * 2 * complex_of_real pi * complex_of_real f * complex_of_real t)) ts"

text \<open>
  \<^verbatim>\<open>values * phase\<close> on one-dimensional arrays: elementwise on equal lengths, an array of
  length one is broadcast, any other pair of lengths raises ValueError.
\<close>

definition np_mul :: "real list \<Rightarrow> complex list \<Rightarrow> error + complex list" where
  "np_mul xs ys =
     (if length xs = length ys then Inr (map2 (\<lambda>x y. complex_of_real x * y) xs ys)
      else if length xs = 1 then Inr (map (\<lambda>y. complex_of_real (hd xs) * y) ys)
      else if length ys = 1 then Inr (map (\<lambda>x. complex_of_real x * hd ys) xs)
      else Inl ValueError)"

text \<open>\<^verbatim>\<open>amps /= times.size\<close>; with no sample every entry is 0/0.\<close>

definition div_size :: "complex list \<Rightarrow> nat \<Rightarrow> error + complex list" where
  "div_size amps n =
     (if n = 0 \<and> amps \<noteq> [] then Inl NotANumber
      else Inr (map (\<lambda>a. a / of_nat n) amps))"

text \<open>Lines 91 to 94: \<^verbatim>\<open>amps[i] += np.sum(values * phase)\<close> for each grid frequency,
  \<^verbatim>\<open>amps\<close> starting at zero.\<close>

fun dft_loop :: "real list \<Rightarrow> real list \<Rightarrow> real list \<Rightarrow> error + complex list" where
  "dft_loop ts vals [] = Inr []"
| "dft_loop ts vals (f # fs) =
     (case np_mul vals (phase f ts) of Inl e \<Rightarrow> Inl e | Inr p \<Rightarrow>
      case dft_loop ts vals fs of Inl e \<Rightarrow> Inl e | Inr rest \<Rightarrow>
        Inr ((0 + sum_list p) # rest))"

definition dirty_spectrum :: "real list \<Rightarrow> real list \<Rightarrow> int \<Rightarrow> real \<Rightarrow> error + complex list" where
  "dirty_spectrum ts vals num_freqs freq_inc =
     (case dft_loop ts vals (freqs_grid num_freqs freq_inc) of Inl e \<Rightarrow> Inl e
      | Inr amps \<Rightarrow> div_size amps (length ts))"

text \<open>Lines 100 to 105: the same loop with \<^verbatim>\<open>np.sum(phase)\<close>, on the wider grid.\<close>

definition psf_loop :: "real list \<Rightarrow> real list \<Rightarrow> complex list" where
  "psf_loop ts fs = map (\<lambda>f. 0 + sum_list (phase f ts)) fs"

definition psf_spectrum :: "real list \<Rightarrow> int \<Rightarrow> real \<Rightarrow> error + complex list" where
  "psf_spectrum ts num_freqs freq_inc =
     div_size (psf_loop ts (freqs_psf_grid num_freqs freq_inc)) (length ts)"

section \<open>The clean spectrum (lines 160 to 182)\<close>

text \<open>
  \<^verbatim>\<open>np.argmax\<close> on an array of booleans: the first index holding True, 0 when there is
  none, ValueError on an empty array.
\<close>

definition argmax_bool :: "bool list \<Rightarrow> error + nat" where
  "argmax_bool bs =
     (if bs = [] then Inl ValueError
      else Inr (if True \<in> set bs then length (takeWhile (\<lambda>b. \<not> b) bs) else 0))"

text \<open>Lines 160 and 163.\<close>

definition half_width :: "complex list \<Rightarrow> error + nat" where
  "half_width psf =
     (let c = length psf div 2 in argmax_bool (map (\<lambda>w. cmod w \<le> 0.5) (drop c psf)))"

text \<open>Lines 164 to 168. With \<open>hwhm = 0\<close> the only exponent is 0/0.\<close>

definition clean_beam :: "nat \<Rightarrow> error + real list" where
  "clean_beam hwhm =
     (let sigma = (2 * real hwhm) / 2.355;
          extent = int hwhm * 5
      in if sigma = 0 then Inl NotANumber
         else Inr (map (\<lambda>x. exp (- (real_of_int x ^ 2) / (2 * sigma ^ 2)))
                     [- extent..extent + 1 - 1]))"

text \<open>
  \<^verbatim>\<open>np.convolve(a, v, mode='same')\<close>, as NumPy documents and implements it: an empty
  argument raises ValueError; if \<open>v\<close> is longer than \<open>a\<close> the two are swapped; the result is
  the middle part of the full convolution, of the length of the longer argument, starting
  at offset \<open>(n - 1) div 2\<close> for \<open>n\<close> the length of the shorter one.
\<close>

definition convolve_full :: "complex list \<Rightarrow> complex list \<Rightarrow> complex list" where
  "convolve_full a v =
     map (\<lambda>k. \<Sum>i\<leftarrow>[0..<length a].
                 if i \<le> k \<and> k - i < length v then a ! i * v ! (k - i) else 0)
         [0..<length a + length v - 1]"

definition convolve_same :: "complex list \<Rightarrow> complex list \<Rightarrow> error + complex list" where
  "convolve_same a v =
     (let (a1, v1) = (if length v > length a then (v, a) else (a, v))
      in if a1 = [] then Inl ValueError
         else if v1 = [] then Inl ValueError
         else Inr (take (length a1) (drop ((length v1 - 1) div 2) (convolve_full a1 v1))))"

text \<open>
  \<^verbatim>\<open>x += y\<close> on one-dimensional arrays: \<open>y\<close> must have the length of \<open>x\<close> or length one,
  otherwise the shapes do not broadcast and ValueError is raised.
\<close>

definition np_iadd :: "complex list \<Rightarrow> complex list \<Rightarrow> error + complex list" where
  "np_iadd xs ys =
     (if length ys = length xs then Inr (map2 (+) xs ys)
      else if length ys = 1 then Inr (map (\<lambda>x. x + hd ys) xs)
      else Inl ValueError)"

text \<open>Lines 160 to 182.\<close>

definition beam_reconstruct :: "complex list \<Rightarrow> complex list \<Rightarrow> complex list
    \<Rightarrow> error + complex list" where
  "beam_reconstruct psf comps res =
     (case half_width psf of Inl e \<Rightarrow> Inl e | Inr hwhm \<Rightarrow>
      case clean_beam hwhm of Inl e \<Rightarrow> Inl e | Inr beam \<Rightarrow>
      case convolve_same comps (map complex_of_real beam) of Inl e \<Rightarrow> Inl e
      | Inr clean_spectrum \<Rightarrow> np_iadd (map (\<lambda>z. z * 2) clean_spectrum) res)"

section \<open>The whole computation (lines 90 to 182)\<close>

definition spectrum_clean :: "real list \<Rightarrow> real list \<Rightarrow> int \<Rightarrow> real \<Rightarrow> real \<Rightarrow> int
    \<Rightarrow> error + (complex list \<times> complex list \<times> clean_state \<times> complex list)" where
  "spectrum_clean ts vals num_freqs freq_inc gain num_iter =
     (case dirty_spectrum ts vals num_freqs freq_inc of Inl e \<Rightarrow> Inl e | Inr amps \<Rightarrow>
      case psf_spectrum ts num_freqs freq_inc of Inl e \<Rightarrow> Inl e | Inr psf \<Rightarrow>
      case clean gain num_iter psf amps (length (freqs_grid num_freqs freq_inc)) of
        Inl e \<Rightarrow> Inl e
      | Inr st \<Rightarrow>
         (case beam_reconstruct psf (clean_components st) (residual st) of Inl e \<Rightarrow> Inl e
          | Inr clean_spectrum \<Rightarrow> Inr (amps, psf, st, clean_spectrum)))"

section \<open>Notions used to state the properties\<close>

text \<open>
  The corrected peak amplitude as the specification writes it, with the complex value
  \<open>psf_coupling = PSF[2 * idx_max]\<close> keeping its phase. This definition follows the
  specification's formulas, not the source; \<open>corrected_amp\<close> above is the source.
\<close>

definition corrected_amp_spec :: "complex \<Rightarrow> complex \<Rightarrow> real \<Rightarrow> real \<times> real" where
  "corrected_amp_spec res_amp psf_coupling temp =
     ((Re res_amp * (1 - Re psf_coupling) - Im res_amp * Im psf_coupling) / temp,
      (Im res_amp * (1 + Re psf_coupling) - Re res_amp * Im psf_coupling) / temp)"

text \<open>
  The spectrum at frequency \<open>f\<close> as the specification writes it,
  \<open>S[f] = (1/N) \<Sum>\<^sub>n V[n] exp(-2\<pi>i f T[n])\<close>. This definition follows the specification's
  formula; \<open>dirty_spectrum\<close> and \<open>psf_spectrum\<close> above are the source.
\<close>

definition spectrum_spec :: "real list \<Rightarrow> real list \<Rightarrow> real \<Rightarrow> complex" where
  "spectrum_spec T V f =
     (1 / of_nat (length T)) *
     (\<Sum>n = 0..<length T.
         complex_of_real (V ! n)
         * exp (- 2 * complex_of_real pi * \<i> * complex_of_real f * complex_of_real (T ! n)))"

text \<open>Elementwise sum of two arrays, and of a list of arrays of length \<open>n\<close>.\<close>

definition vec_add :: "complex list \<Rightarrow> complex list \<Rightarrow> complex list" where
  "vec_add xs ys = map2 (+) xs ys"

definition vec_sum :: "nat \<Rightarrow> complex list list \<Rightarrow> complex list" where
  "vec_sum n vs = map (\<lambda>j. \<Sum>s\<leftarrow>vs. s ! j) [0..<n]"

text \<open>Loop invariants of the CLEAN loop.\<close>

definition accounted :: "complex list \<Rightarrow> clean_state \<Rightarrow> bool" where
  "accounted amps st \<longleftrightarrow>
     length (residual st) = length amps \<and>
     (\<forall>s\<in>set (subtracted st). length s = length amps) \<and>
     vec_add (residual st) (vec_sum (length amps) (subtracted st)) = amps"

definition sized :: "nat \<Rightarrow> clean_state \<Rightarrow> bool" where
  "sized M st \<longleftrightarrow> length (clean_components st) = M \<and> length (residual st) = M"

definition untouched :: "complex list \<Rightarrow> clean_state \<Rightarrow> bool" where
  "untouched amps st \<longleftrightarrow>
     clean_components st = replicate (length amps) 0 \<and> residual st = amps \<and>
     (\<forall>s\<in>set (subtracted st). s = replicate (length amps) 0)"

section \<open>Indexing\<close>

lemma getitem_nat: "getitem xs (int k) = (if k < length xs then Inr (xs ! k) else Inl IndexError)"
  by (simp add: getitem_def Let_def)

lemma setitem_nat:
  "setitem xs (int k) v = (if k < length xs then Inr (xs[k := v]) else Inl IndexError)"
  by (simp add: setitem_def Let_def)

lemma getitem_in_range: "0 \<le> i \<Longrightarrow> i < int (length xs) \<Longrightarrow> getitem xs i = Inr (xs ! nat i)"
  by (simp add: getitem_def Let_def)

section \<open>The peak search\<close>

lemma not_cgreater_Re: "\<not> cgreater a b \<Longrightarrow> Re a \<le> Re b"
  by (auto simp: cgreater_def)

lemma argmax_scan_max:
  assumes "length pre = i" "mi < i" "pre ! mi = mp"
    and "\<forall>j<i. \<not> cgreater (pre ! j) mp"
  shows "argmax_scan xs i mi mp < length (pre @ xs) \<and>
         (\<forall>j<length (pre @ xs).
            \<not> cgreater ((pre @ xs) ! j) ((pre @ xs) ! argmax_scan xs i mi mp))"
  using assms
proof (induction xs arbitrary: pre i mi mp)
  case Nil
  then show ?case by simp
next
  case (Cons x xs)
  have a: "length (pre @ [x]) = Suc i" using Cons.prems by simp
  show ?case
  proof (cases "cgreater x mp")
    case True
    have b: "(pre @ [x]) ! i = x" using Cons.prems by (simp add: nth_append)
    have c: "\<forall>j<Suc i. \<not> cgreater ((pre @ [x]) ! j) x"
    proof (intro allI impI)
      fix j assume "j < Suc i"
      show "\<not> cgreater ((pre @ [x]) ! j) x"
      proof (cases "j < i")
        case True
        then have "\<not> cgreater (pre ! j) mp" using Cons.prems by simp
        with \<open>cgreater x mp\<close> have "\<not> cgreater (pre ! j) x" by (auto simp: cgreater_def)
        then show ?thesis using True Cons.prems by (simp add: nth_append)
      next
        case False
        with \<open>j < Suc i\<close> have "j = i" by simp
        then show ?thesis using b by (simp add: cgreater_def)
      qed
    qed
    from Cons.IH[OF a _ b c] True show ?thesis by simp
  next
    case False
    have b: "(pre @ [x]) ! mi = mp" using Cons.prems by (simp add: nth_append)
    have c: "\<forall>j<Suc i. \<not> cgreater ((pre @ [x]) ! j) mp"
    proof (intro allI impI)
      fix j assume "j < Suc i"
      show "\<not> cgreater ((pre @ [x]) ! j) mp"
      proof (cases "j < i")
        case True
        then show ?thesis using Cons.prems by (simp add: nth_append)
      next
        case nlt: False
        with \<open>j < Suc i\<close> have "j = i" by simp
        then show ?thesis using False Cons.prems by (simp add: nth_append)
      qed
    qed
    have d: "mi < Suc i" using Cons.prems by simp
    from Cons.IH[OF a d b c] False show ?thesis by simp
  qed
qed

lemma argmax_max:
  assumes "argmax xs = Inr k"
  shows "k < length xs \<and> (\<forall>j<length xs. Re (xs ! j) \<le> Re (xs ! k))"
proof (cases xs)
  case Nil
  with assms show ?thesis by (simp add: argmax_def)
next
  case (Cons x rest)
  with assms have k: "k = argmax_scan rest 1 0 x" by (simp add: argmax_def)
  have "argmax_scan rest 1 0 x < length ([x] @ rest) \<and>
         (\<forall>j<length ([x] @ rest).
            \<not> cgreater (([x] @ rest) ! j) (([x] @ rest) ! argmax_scan rest 1 0 x))"
    by (rule argmax_scan_max) (simp_all add: cgreater_def)
  then show ?thesis using k Cons by (auto dest: not_cgreater_Re)
qed

lemma argmax_total: "xs \<noteq> [] \<Longrightarrow> \<exists>k. argmax xs = Inr k"
  by (cases xs) (simp_all add: argmax_def)

lemma find_peak_total:
  "length amps div 2 < length res \<Longrightarrow> \<exists>idx_max. find_peak amps res = Inr idx_max"
proof -
  assume "length amps div 2 < length res"
  then have "drop (length amps div 2) res \<noteq> []" by simp
  from argmax_total[OF this] show ?thesis by (auto simp: find_peak_def)
qed

lemma find_peak_props:
  assumes "find_peak amps res = Inr idx_max"
  shows "length amps div 2 \<le> idx_max" and "idx_max < length res"
    and "\<And>j. length amps div 2 \<le> j \<Longrightarrow> j < length res \<Longrightarrow> Re (res ! j) \<le> Re (res ! idx_max)"
proof -
  define c where "c = length amps div 2"
  from assms obtain k where k: "argmax (drop c res) = Inr k" "idx_max = c + k"
    by (auto simp: find_peak_def c_def Let_def split: sum.splits)
  from argmax_max[OF k(1)] have kl: "k < length res - c"
    and km: "\<forall>j<length res - c. Re (drop c res ! j) \<le> Re (drop c res ! k)" by auto
  show "length amps div 2 \<le> idx_max" using k c_def by simp
  show "idx_max < length res" using k kl by simp
  show "Re (res ! j) \<le> Re (res ! idx_max)" if "length amps div 2 \<le> j" "j < length res" for j
  proof -
    have "j - c < length res - c" using that c_def by auto
    with km have "Re (drop c res ! (j - c)) \<le> Re (drop c res ! k)" by blast
    moreover have "drop c res ! (j - c) = res ! j" using that c_def by simp
    moreover have "drop c res ! k = res ! idx_max" using k kl by simp
    ultimately show ?thesis by simp
  qed
qed

text \<open>
  C9. In every iteration the selected index \<open>idx_max\<close> lies in the non-negative-frequency
  half (at or above the centre index \<open>c = length amps div 2\<close>) and the real part of the
  residual attains its maximum over that half there. The search succeeds whenever that half
  is not empty.
\<close>

theorem find_peak_max:
  "(length amps div 2 < length res \<longrightarrow> (\<exists>idx_max. find_peak amps res = Inr idx_max)) \<and>
   (\<forall>idx_max. find_peak amps res = Inr idx_max \<longrightarrow>
      length amps div 2 \<le> idx_max \<and> idx_max < length res \<and>
      (\<forall>j. length amps div 2 \<le> j \<and> j < length res \<longrightarrow> Re (res ! j) \<le> Re (res ! idx_max)))"
  using find_peak_total[of amps res] find_peak_props[of amps res] by blast

theorem find_peak_max_witness:
  "length [1, 5, 2, 7, 3 :: complex] div 2 < length [1, 5, 2, 7, 3 :: complex] \<and>
   find_peak [1, 5, 2, 7, 3] [1, 5, 2, 7, 3] = Inr 3 \<and>
   Re ([1, 5, 2, 7, 3] ! 4) \<le> Re ([1, 5, 2, 7, 3] ! 3)"
proof -
  have e: "find_peak [1, 5, 2, 7, 3] [1, 5, 2, 7, 3] = Inr 3"
    by (simp add: find_peak_def argmax_def cgreater_def)
  have "length [1, 5, 2, 7, 3 :: complex] div 2 \<le> 4 \<and> 4 < length [1, 5, 2, 7, 3 :: complex]"
    by simp
  with find_peak_max[of "[1, 5, 2, 7, 3]" "[1, 5, 2, 7, 3]"] e
  have "Re ([1, 5, 2, 7, 3] ! 4) \<le> Re ([1, 5, 2, 7, 3] ! 3)" by blast
  with e show ?thesis by simp
qed

section \<open>The corrected amplitude\<close>

lemma corrected_amp_closed:
  assumes "0 \<le> m" "1 - m ^ 2 \<noteq> 0"
  shows "corrected_amp r m (1 - m ^ 2) = (Re r / (1 + m), Im r / (1 - m))"
proof -
  have f: "1 - m ^ 2 = (1 - m) * (1 + m)" by (simp add: power2_eq_square algebra_simps)
  have p: "1 + m \<noteq> 0" using assms(1) by simp
  have q: "1 - m \<noteq> 0" using assms(2) f by auto
  show ?thesis unfolding f using p q by (simp add: corrected_amp_def Let_def)
qed

text \<open>
  A small run used below: three grid points (\<open>num_freqs = 1\<close>), the samples at times
  0, 1/4 and 3/4 with values 3, 0 and -3, and \<open>freq_inc = 1\<close>. Its dirty spectrum is
  \<open>[1 + \<i>, 0, 1 - \<i>]\<close> and its PSF \<open>[-1/3, 1/3, 1, 1/3, -1/3]\<close>.
\<close>

lemma example_locate:
  "locate [- 1 / 3, 1 / 3, 1, 1 / 3, - 1 / 3] [1 + \<i>, 0, 1 - \<i>] [1 + \<i>, 0, 1 - \<i>]
     = Inr (2, 1 - \<i>, 1 / 3, 8 / 9)"
  by (simp add: locate_def find_peak_def argmax_def cgreater_def getitem_def coupling_index_def
      Let_def norm_divide power2_eq_square)

text \<open>
  C10. The source takes the real magnitude \<open>psf_mag = |PSF[2 * idx_max]|\<close> as the coupling
  value, so whenever \<open>temp = 1 - psf_mag\<^sup>2\<close> is not zero the amplitude it computes is
  \<open>aRe = res_amp.re / (1 + psf_mag)\<close> and \<open>aIm = res_amp.im / (1 - psf_mag)\<close>: the phase
  of the coupling plays no part.
\<close>

theorem corrected_amp_magnitude:
  assumes "locate psf amps res = Inr (idx_max, res_amp, psf_mag, temp)" and "temp \<noteq> 0"
  shows "getitem psf (int idx_max * 2) = Inr (psf ! (2 * idx_max)) \<and>
         psf_mag = cmod (psf ! (2 * idx_max)) \<and> temp = 1 - psf_mag ^ 2 \<and>
         corrected_amp res_amp psf_mag temp
           = (Re res_amp / (1 + psf_mag), Im res_amp / (1 - psf_mag))"
proof -
  from assms(1) obtain w where w: "getitem psf (coupling_index idx_max) = Inr w"
    and m: "psf_mag = cmod w" and t: "temp = 1 - psf_mag ^ 2"
    by (auto simp: locate_def Let_def split: sum.splits)
  have ci: "coupling_index idx_max = int (2 * idx_max)" by (simp add: coupling_index_def)
  from w have w2: "w = psf ! (2 * idx_max)" "2 * idx_max < length psf"
    unfolding ci getitem_nat by (auto split: if_splits)
  have g: "getitem psf (int idx_max * 2) = Inr (psf ! (2 * idx_max))"
    using w w2 by (simp add: coupling_index_def)
  have "0 \<le> psf_mag" using m by simp
  from corrected_amp_closed[OF this] assms(2) t
  have "corrected_amp res_amp psf_mag temp
          = (Re res_amp / (1 + psf_mag), Im res_amp / (1 - psf_mag))"
    by simp
  with g m t w2 show ?thesis by simp
qed

theorem corrected_amp_magnitude_witness:
  "locate [- 1 / 3, 1 / 3, 1, 1 / 3, - 1 / 3] [1 + \<i>, 0, 1 - \<i>] [1 + \<i>, 0, 1 - \<i>]
     = Inr (2, 1 - \<i>, 1 / 3, 8 / 9) \<and> (8 / 9 :: real) \<noteq> 0 \<and>
   corrected_amp (1 - \<i>) (1 / 3) (8 / 9) = (3 / 4, - 3 / 2)"
proof -
  have n: "(8 / 9 :: real) \<noteq> 0" by simp
  from corrected_amp_magnitude[OF example_locate n]
  have "corrected_amp (1 - \<i>) (1 / 3) (8 / 9) = (3 / 4, - 3 / 2)" by simp
  with example_locate n show ?thesis by blast
qed

text \<open>
  C1. The specification's formulas, with \<open>psf_coupling = PSF[2 * idx_max]\<close> keeping its
  phase, are not what the source computes. In the run above the peak is at index 2 with
  \<open>res_amp = 1 - \<i>\<close> and \<open>PSF[4] = -1/3\<close>, so \<open>temp = 8/9\<close>; the source yields
  \<open>(aRe, aIm) = (3/4, -3/2)\<close>, the formulas of the specification \<open>(3/2, -3/4)\<close>.
\<close>

theorem coupling_phase_dropped:
  "locate [- 1 / 3, 1 / 3, 1, 1 / 3, - 1 / 3] [1 + \<i>, 0, 1 - \<i>] [1 + \<i>, 0, 1 - \<i>]
     = Inr (2, 1 - \<i>, 1 / 3, 8 / 9) \<and>
   getitem [- 1 / 3, 1 / 3, 1, 1 / 3, - 1 / 3] (coupling_index 2) = Inr (- 1 / 3 :: complex) \<and>
   corrected_amp (1 - \<i>) (1 / 3) (8 / 9) = (3 / 4, - 3 / 2) \<and>
   corrected_amp_spec (1 - \<i>) (- 1 / 3) (8 / 9) = (3 / 2, - 3 / 4)"
proof -
  have a: "corrected_amp (1 - \<i>) (1 / 3) (8 / 9) = (3 / 4, - 3 / 2)"
    by (simp add: corrected_amp_def Let_def)
  have b: "corrected_amp_spec (1 - \<i>) (- 1 / 3) (8 / 9) = (3 / 2, - 3 / 4)"
    by (simp add: corrected_amp_spec_def)
  have c: "getitem [- 1 / 3, 1 / 3, 1, 1 / 3, - 1 / 3] (coupling_index 2) = Inr (- 1 / 3 :: complex)"
    by (simp add: getitem_def coupling_index_def)
  from example_locate a b c show ?thesis by blast
qed

section \<open>The loop\<close>

lemma for_range_invariant:
  assumes "for_range body is s = Inr s'" and "P s"
    and "\<And>i s s'. P s \<Longrightarrow> body i s = Inr (Next s') \<Longrightarrow> P s'"
    and "\<And>i s s'. P s \<Longrightarrow> body i s = Inr (Break s') \<Longrightarrow> P s'"
  shows "P s'"
  using assms(1,2)
proof (induction "is" arbitrary: s)
  case Nil
  then show ?case by simp
next
  case (Cons i "is")
  show ?case
  proof (cases "body i s")
    case (Inl e)
    with Cons.prems show ?thesis by simp
  next
    case (Inr c)
    show ?thesis
    proof (cases c)
      case (Next s1)
      with Inr Cons.prems have "for_range body is s1 = Inr s'" by simp
      moreover have "P s1" using assms(3) Cons.prems(2) Inr Next by blast
      ultimately show ?thesis by (rule Cons.IH)
    next
      case (Break s1)
      with Inr Cons.prems have "s' = s1" by simp
      then show ?thesis using assms(4) Cons.prems(2) Inr Break by blast
    qed
  qed
qed

lemma for_range_total:
  assumes "P s"
    and "\<And>i s. P s \<Longrightarrow> \<exists>s'. (body i s = Inr (Next s') \<or> body i s = Inr (Break s')) \<and> P s'"
  shows "\<exists>s'. for_range body is s = Inr s'"
  using assms(1)
proof (induction "is" arbitrary: s)
  case Nil
  then show ?case by simp
next
  case (Cons i "is")
  from assms(2)[OF Cons.prems, of i] obtain s1 where
    s1: "body i s = Inr (Next s1) \<or> body i s = Inr (Break s1)" and p: "P s1" by blast
  from s1 show ?case
  proof
    assume "body i s = Inr (Next s1)"
    then show ?thesis using Cons.IH[OF p] by simp
  next
    assume "body i s = Inr (Break s1)"
    then show ?thesis by simp
  qed
qed

text \<open>A run that ended in a state not marked as broken went through all its iterations,
  so a longer run starts the same way.\<close>

lemma for_range_append:
  assumes "for_range body xs s = Inr s1" "\<not> B s1"
    and "\<And>i s s'. body i s = Inr (Break s') \<Longrightarrow> B s'"
  shows "for_range body (xs @ ys) s = for_range body ys s1"
  using assms(1)
proof (induction xs arbitrary: s)
  case Nil
  then show ?case by simp
next
  case (Cons i xs)
  show ?case
  proof (cases "body i s")
    case (Inl e)
    with Cons.prems show ?thesis by simp
  next
    case (Inr c)
    show ?thesis
    proof (cases c)
      case (Next s2)
      then show ?thesis using Inr Cons by simp
    next
      case (Break s2)
      with Inr Cons.prems have "s1 = s2" by simp
      with assms(3)[of i s s2] Inr Break assms(2) show ?thesis by simp
    qed
  qed
qed

subsection \<open>One iteration\<close>

lemma sub_loop_length:
  "sub_loop psf fsize gain a idx js sub = Inr sub' \<Longrightarrow> length sub' = length sub"
proof (induction js arbitrary: sub)
  case Nil
  then show ?case by simp
next
  case (Cons j js)
  then show ?case
    by (auto simp: setitem_nat Let_def split: sum.splits if_splits)
qed

lemma clean_body_Next:
  assumes "clean_body gain psf amps fsize i st = Inr (Next st')"
  shows "\<exists>idx r m t sub.
           locate psf amps (residual st) = Inr (idx, r, m, t) \<and> t \<noteq> 0 \<and>
           idx < length (clean_components st) \<and>
           sub_loop psf fsize gain (corrected_amp r m t) idx [0..<fsize]
             (replicate (length (residual st)) 0) = Inr sub \<and>
           st' = st\<lparr>clean_components := (clean_components st)[idx := clean_components st ! idx
                       + Complex (fst (corrected_amp r m t)) (snd (corrected_amp r m t))
                         * complex_of_real gain],
                    residual := map2 (-) (residual st) sub,
                    subtracted := subtracted st @ [sub]\<rparr>"
  using assms unfolding clean_body_def
  by (auto simp: getitem_nat setitem_nat Let_def split: sum.splits prod.splits if_splits)

lemma clean_body_Break:
  assumes "clean_body gain psf amps fsize i st = Inr (Break st')"
  shows "st' = st\<lparr>warnings := warnings st @ [i]\<rparr>"
  using assms unfolding clean_body_def
  by (auto simp: getitem_nat setitem_nat Let_def split: sum.splits prod.splits if_splits)

subsection \<open>A run with one completed iteration and a degenerate second one\<close>

text \<open>
  Spectrum \<open>[2, 1, 2]\<close>, PSF \<open>[0, 0, 1, 0, 0]\<close>, gain 1. Iteration 0 finds the peak at
  index 2, where the coupling \<open>PSF[4]\<close> is 0, and subtracts \<open>[2, 0, 2]\<close>. Iteration 1 finds
  the peak at the centre, index 1, where the coupling \<open>PSF[2]\<close> is 1 and \<open>temp\<close> is 0.
\<close>

lemma upt_0_3: "[0..<3] = [0, 1, 2]"
  by code_simp

lemma example_sub: "sub_loop [0, 0, 1, 0, 0] 3 1 (2, 0) 2 [0..<3] [0, 0, 0] = Inr [2, 0, 2]"
  by (simp add: upt_0_3 getitem_def setitem_def diff_index_def sum_index_def Let_def
      complex_eq_iff)

lemma example_locate0: "locate [0, 0, 1, 0, 0] [2, 1, 2] [2, 1, 2] = Inr (2, 2, 0, 1)"
  by (simp add: locate_def find_peak_def argmax_def cgreater_def getitem_def coupling_index_def
      Let_def)

lemma example_body0:
  "clean_body 1 [0, 0, 1, 0, 0] [2, 1, 2] 3 0 (init_state [2, 1, 2])
     = Inr (Next \<lparr>clean_components = [0, 0, 2], residual = [0, 1, 0], warnings = [],
                  subtracted = [[2, 0, 2]]\<rparr>)"
  by (simp add: clean_body_def example_locate0 example_sub getitem_def setitem_def
      corrected_amp_def init_state_def Let_def complex_eq_iff del: sub_loop.simps)

lemma example_clean1:
  "clean 1 1 [0, 0, 1, 0, 0] [2, 1, 2] 3
     = Inr \<lparr>clean_components = [0, 0, 2], residual = [0, 1, 0], warnings = [],
            subtracted = [[2, 0, 2]]\<rparr>"
  by (simp add: clean_def example_body0)

lemma example_locate1: "locate [0, 0, 1, 0, 0] [2, 1, 2] [0, 1, 0] = Inr (1, 1, 1, 0)"
  by (simp add: locate_def find_peak_def argmax_def cgreater_def getitem_def coupling_index_def
      Let_def)

subsection \<open>Residual accounting\<close>

lemma accounted_init: "accounted amps (init_state amps)"
  by (auto simp: accounted_def init_state_def vec_add_def vec_sum_def intro!: nth_equalityI)

lemma accounted_Next:
  assumes "accounted amps st" "clean_body gain psf amps fsize i st = Inr (Next st')"
  shows "accounted amps st'"
proof -
  from clean_body_Next[OF assms(2)] obtain idx r m t sub where
    sl: "sub_loop psf fsize gain (corrected_amp r m t) idx [0..<fsize]
             (replicate (length (residual st)) 0) = Inr sub"
    and res: "residual st' = map2 (-) (residual st) sub"
    and hist: "subtracted st' = subtracted st @ [sub]"
    by auto
  have n: "length (residual st) = length amps" using assms(1) by (simp add: accounted_def)
  have ls: "length sub = length amps" using sub_loop_length[OF sl] n by simp
  have old: "vec_add (residual st) (vec_sum (length amps) (subtracted st)) = amps"
    using assms(1) by (simp add: accounted_def)
  have "vec_add (residual st') (vec_sum (length amps) (subtracted st')) = amps"
  proof (rule nth_equalityI)
    show "length (vec_add (residual st') (vec_sum (length amps) (subtracted st'))) = length amps"
      using n ls res by (simp add: vec_add_def vec_sum_def)
  next
    fix j assume "j < length (vec_add (residual st') (vec_sum (length amps) (subtracted st')))"
    then have j: "j < length amps" using n ls res by (simp add: vec_add_def vec_sum_def)
    have "vec_add (residual st) (vec_sum (length amps) (subtracted st)) ! j = amps ! j"
      using old by simp
    then have o: "residual st ! j + (\<Sum>s\<leftarrow>subtracted st. s ! j) = amps ! j"
      using j n by (simp add: vec_add_def vec_sum_def)
    show "vec_add (residual st') (vec_sum (length amps) (subtracted st')) ! j = amps ! j"
      using j n ls res hist o by (simp add: vec_add_def vec_sum_def)
  qed
  then show ?thesis using n ls res hist assms(1) by (auto simp: accounted_def)
qed

lemma accounted_Break:
  assumes "accounted amps st" "clean_body gain psf amps fsize i st = Inr (Break st')"
  shows "accounted amps st'"
  using clean_body_Break[OF assms(2)] assms(1) by (simp add: accounted_def)

text \<open>
  C2. Whatever the dirty spectrum, the PSF, the gain and the number of iterations, when
  the loop has run, the residual plus the elementwise sum of the subtraction vectors of all
  completed iterations is the dirty spectrum. Since the number of iterations is arbitrary,
  this holds at every iteration boundary. Arithmetic is exact here, so the equality is
  exact.
\<close>

theorem residual_accounting:
  assumes "clean gain num_iter psf amps fsize = Inr st"
  shows "vec_add (residual st) (vec_sum (length amps) (subtracted st)) = amps"
proof -
  have "accounted amps st"
    using assms[unfolded clean_def] accounted_init accounted_Next accounted_Break
    by (rule for_range_invariant)
  then show ?thesis by (simp add: accounted_def)
qed

theorem residual_accounting_witness:
  "clean 1 1 [0, 0, 1, 0, 0] [2, 1, 2] 3
     = Inr \<lparr>clean_components = [0, 0, 2], residual = [0, 1, 0], warnings = [],
            subtracted = [[2, 0, 2]]\<rparr> \<and>
   vec_add [0, 1, 0] (vec_sum 3 [[2, 0, 2]]) = [2, 1, 2]"
  using residual_accounting[OF example_clean1] example_clean1 by (simp add: numeral_3_eq_3)

subsection \<open>Degenerate coupling\<close>

text \<open>
  C4. Let \<open>st\<close> be the state after \<open>i\<close> completed iterations (a run of \<open>i\<close> iterations that
  emitted no diagnostic). If iteration \<open>i\<close> finds \<open>temp = 0\<close>, then every run with more than
  \<open>i\<close> iterations ends without an error in the state \<open>st\<close>, components and residual
  unchanged, with the one diagnostic naming iteration \<open>i\<close>.
\<close>

theorem degenerate_coupling_break:
  assumes "clean gain (int i) psf amps fsize = Inr st" and "warnings st = []"
    and "locate psf amps (residual st) = Inr (idx_max, res_amp, psf_mag, 0)"
    and "int i < num_iter"
  shows "clean gain num_iter psf amps fsize = Inr (st\<lparr>warnings := [i]\<rparr>)"
proof -
  let ?body = "clean_body gain psf amps fsize"
  have split: "[0..<nat num_iter] = [0..<i] @ (i # [Suc i..<nat num_iter])"
  proof -
    have lt: "i < nat num_iter" using assms(4) by simp
    then have "[0..<nat num_iter] = [0..<i] @ [i..<nat num_iter]"
      using upt_add_eq_append[of 0 i "nat num_iter - i"] by simp
    then show ?thesis using lt by (simp add: upt_conv_Cons)
  qed
  have a: "for_range ?body [0..<i] (init_state amps) = Inr st"
    using assms(1) by (simp add: clean_def)
  have b: "\<not> warnings st \<noteq> []" using assms(2) by simp
  have c: "\<And>k s s'. ?body k s = Inr (Break s') \<Longrightarrow> warnings s' \<noteq> []"
    by (auto dest: clean_body_Break)
  have "for_range ?body ([0..<i] @ (i # [Suc i..<nat num_iter])) (init_state amps)
        = for_range ?body (i # [Suc i..<nat num_iter]) st"
    using a b c by (rule for_range_append)
  moreover have "?body i st = Inr (Break (st\<lparr>warnings := warnings st @ [i]\<rparr>))"
    using assms(3) by (simp add: clean_body_def)
  ultimately show ?thesis using assms(2) split by (simp add: clean_def)
qed

theorem degenerate_coupling_break_witness:
  "clean 1 (int 1) [0, 0, 1, 0, 0] [2, 1, 2] 3
     = Inr \<lparr>clean_components = [0, 0, 2], residual = [0, 1, 0], warnings = [],
            subtracted = [[2, 0, 2]]\<rparr> \<and>
   locate [0, 0, 1, 0, 0] [2, 1, 2] [0, 1, 0] = Inr (1, 1, 1, 0) \<and>
   int 1 < 5 \<and>
   clean 1 5 [0, 0, 1, 0, 0] [2, 1, 2] 3
     = Inr \<lparr>clean_components = [0, 0, 2], residual = [0, 1, 0], warnings = [1],
            subtracted = [[2, 0, 2]]\<rparr>"
  using degenerate_coupling_break[of 1 1 "[0, 0, 1, 0, 0]" "[2, 1, 2]" 3 _ 1 1 1 5]
    example_clean1 example_locate1
  by simp

subsection \<open>Indexing of the PSF\<close>

lemma sub_loop_total:
  assumes "length psf = 2 * M - 1" "idx < M" "\<forall>j\<in>set js. j < M" "length sub = M"
  shows "\<exists>sub'. sub_loop psf M gain a idx js sub = Inr sub'"
  using assms(3,4)
proof (induction js arbitrary: sub)
  case Nil
  then show ?case by simp
next
  case (Cons j js)
  have j: "j < M" using Cons.prems by simp
  have d: "0 \<le> diff_index M j idx" "diff_index M j idx < int (length psf)"
    using j assms(1,2) by (auto simp: diff_index_def)
  have s: "0 \<le> sum_index j idx" "sum_index j idx < int (length psf)"
    using j assms(1,2) by (auto simp: sum_index_def)
  have "\<exists>sub'. sub_loop psf M gain a idx js (sub[j := v]) = Inr sub'" for v
    using Cons.IH[of "sub[j := v]"] Cons.prems by simp
  then show ?case
    using j Cons.prems(2) getitem_in_range[OF d] getitem_in_range[OF s]
    by (simp add: setitem_nat Let_def)
qed

lemma locate_total:
  assumes "amps \<noteq> []" "length psf = 2 * length amps - 1" "length res = length amps"
  shows "\<exists>idx r m t. locate psf amps res = Inr (idx, r, m, t) \<and> idx < length amps"
proof -
  have "length amps div 2 < length res" using assms(1,3) by (cases amps) auto
  from find_peak_total[OF this] obtain idx where i: "find_peak amps res = Inr idx" by blast
  have il: "idx < length res" using find_peak_props(2)[OF i] .
  have c: "0 \<le> coupling_index idx" "coupling_index idx < int (length psf)"
    using il assms by (auto simp: coupling_index_def)
  show ?thesis
    using i il assms(3) getitem_in_range[OF c]
    by (simp add: locate_def getitem_nat Let_def)
qed

lemma clean_body_total:
  assumes "amps \<noteq> []" "length psf = 2 * length amps - 1" "sized (length amps) st"
  shows "\<exists>st'. (clean_body gain psf amps (length amps) i st = Inr (Next st')
             \<or> clean_body gain psf amps (length amps) i st = Inr (Break st'))
           \<and> sized (length amps) st'"
proof -
  have l: "length (residual st) = length amps" "length (clean_components st) = length amps"
    using assms(3) by (simp_all add: sized_def)
  from locate_total[OF assms(1,2) l(1)] obtain idx r m t where
    loc: "locate psf amps (residual st) = Inr (idx, r, m, t)" and idx: "idx < length amps"
    by blast
  show ?thesis
  proof (cases "t = 0")
    case True
    then show ?thesis using loc assms(3) by (simp add: clean_body_def sized_def)
  next
    case False
    have "\<forall>j\<in>set [0..<length amps]. j < length amps" by simp
    from sub_loop_total[OF assms(2) idx this,
        of "replicate (length amps) 0" gain "corrected_amp r m t"]
    obtain sub where sub: "sub_loop psf (length amps) gain (corrected_amp r m t) idx
        [0..<length amps] (replicate (length amps) 0) = Inr sub" by auto
    have "length sub = length amps" using sub_loop_length[OF sub] by simp
    then show ?thesis
      using False loc idx l sub
      by (simp add: clean_body_def getitem_nat setitem_nat Let_def sized_def
          del: sub_loop.simps)
  qed
qed

text \<open>
  C6. With a non-empty spectrum of length \<open>M\<close> and a PSF of length exactly \<open>2M - 1\<close>, the
  loop ends without any error for every gain and iteration count, and the three index
  expressions \<open>2 * idx_max\<close>, \<open>j - idx_max + (M - 1)\<close> and \<open>j + idx_max\<close> lie in
  \<open>[0, 2M - 2]\<close> for every \<open>j\<close> in \<open>[0, M - 1]\<close> and every \<open>idx_max\<close> in the
  non-negative-frequency half.
\<close>

theorem psf_indices_in_bounds:
  assumes "amps \<noteq> []" and "length psf = 2 * length amps - 1"
  shows "(\<exists>st. clean gain num_iter psf amps (length amps) = Inr st) \<and>
         (\<forall>idx_max j. length amps div 2 \<le> idx_max \<and> idx_max < length amps \<and> j < length amps \<longrightarrow>
            0 \<le> coupling_index idx_max \<and> coupling_index idx_max \<le> 2 * int (length amps) - 2 \<and>
            0 \<le> diff_index (length amps) j idx_max \<and>
            diff_index (length amps) j idx_max \<le> 2 * int (length amps) - 2 \<and>
            0 \<le> sum_index j idx_max \<and> sum_index j idx_max \<le> 2 * int (length amps) - 2)"
proof
  have "sized (length amps) (init_state amps)" by (simp add: sized_def init_state_def)
  then show "\<exists>st. clean gain num_iter psf amps (length amps) = Inr st"
    unfolding clean_def using clean_body_total[OF assms]
    by (rule for_range_total)
next
  show "\<forall>idx_max j. length amps div 2 \<le> idx_max \<and> idx_max < length amps \<and> j < length amps \<longrightarrow>
            0 \<le> coupling_index idx_max \<and> coupling_index idx_max \<le> 2 * int (length amps) - 2 \<and>
            0 \<le> diff_index (length amps) j idx_max \<and>
            diff_index (length amps) j idx_max \<le> 2 * int (length amps) - 2 \<and>
            0 \<le> sum_index j idx_max \<and> sum_index j idx_max \<le> 2 * int (length amps) - 2"
    by (auto simp: coupling_index_def diff_index_def sum_index_def)
qed

theorem psf_indices_in_bounds_witness:
  "[2, 1, 2 :: complex] \<noteq> [] \<and>
   length [0, 0, 1, 0, 0 :: complex] = 2 * length [2, 1, 2 :: complex] - 1 \<and>
   (\<exists>st. clean 1 7 [0, 0, 1, 0, 0] [2, 1, 2] (length [2, 1, 2 :: complex]) = Inr st) \<and>
   0 \<le> coupling_index 2 \<and> coupling_index 2 \<le> 4 \<and>
   0 \<le> diff_index 3 0 2 \<and> diff_index 3 0 2 \<le> 4 \<and>
   0 \<le> sum_index 2 2 \<and> sum_index 2 2 \<le> 4"
proof -
  have a: "[2, 1, 2 :: complex] \<noteq> []" by simp
  have b: "length [0, 0, 1, 0, 0 :: complex] = 2 * length [2, 1, 2 :: complex] - 1" by simp
  from psf_indices_in_bounds[OF a b, of 1 7]
  have "\<exists>st. clean 1 7 [0, 0, 1, 0, 0] [2, 1, 2] (length [2, 1, 2 :: complex]) = Inr st"
    by blast
  then show ?thesis by (simp add: coupling_index_def diff_index_def sum_index_def)
qed

subsection \<open>Zero gain\<close>

lemma sub_loop_gain0:
  "sub_loop psf fsize 0 a idx js (replicate n 0) = Inr sub' \<Longrightarrow> sub' = replicate n 0"
proof (induction js)
  case Nil
  then show ?case by simp
next
  case (Cons j js)
  have "(replicate n (0::complex))[j := 0] = replicate n 0"
    by (induction n arbitrary: j) (auto split: nat.splits)
  with Cons show ?case
    by (auto simp: setitem_nat Let_def split: sum.splits if_splits)
qed

lemma map2_minus_zero: "map2 (-) xs (replicate (length xs) (0::complex)) = xs"
  by (rule nth_equalityI) simp_all

lemma untouched_Next:
  assumes "untouched amps st" "clean_body 0 psf amps fsize i st = Inr (Next st')"
  shows "untouched amps st'"
proof -
  from clean_body_Next[OF assms(2)] obtain idx r m t sub where
    idx: "idx < length (clean_components st)"
    and sl: "sub_loop psf fsize 0 (corrected_amp r m t) idx [0..<fsize]
             (replicate (length (residual st)) 0) = Inr sub"
    and st': "st' = st\<lparr>clean_components := (clean_components st)[idx := clean_components st ! idx
                       + Complex (fst (corrected_amp r m t)) (snd (corrected_amp r m t))
                         * complex_of_real 0],
                    residual := map2 (-) (residual st) sub,
                    subtracted := subtracted st @ [sub]\<rparr>"
    by blast
  have r: "residual st = amps" using assms(1) by (simp add: untouched_def)
  have sub: "sub = replicate (length amps) 0" using sl r by (auto dest: sub_loop_gain0)
  show ?thesis using assms(1) st' sub r by (simp add: untouched_def map2_minus_zero)
qed

lemma untouched_Break:
  assumes "untouched amps st" "clean_body 0 psf amps fsize i st = Inr (Break st')"
  shows "untouched amps st'"
  using clean_body_Break[OF assms(2)] assms(1) by (simp add: untouched_def)

text \<open>A run of two iterations with gain 0 on the spectrum and PSF of the run above.\<close>

lemma upt_0_2: "[0..<2] = [0, 1]"
  by code_simp

lemma example_sub_gain0:
  "sub_loop [0, 0, 1, 0, 0] 3 0 (2, 0) 2 [0..<3] [0, 0, 0] = Inr [0, 0, 0]"
  by (simp add: upt_0_3 getitem_def setitem_def diff_index_def sum_index_def Let_def)

lemma example_body_gain0:
  "clean_body 0 [0, 0, 1, 0, 0] [2, 1, 2] 3 i
     \<lparr>clean_components = [0, 0, 0], residual = [2, 1, 2], warnings = [], subtracted = h\<rparr>
   = Inr (Next \<lparr>clean_components = [0, 0, 0], residual = [2, 1, 2], warnings = [],
                subtracted = h @ [[0, 0, 0]]\<rparr>)"
  by (simp add: clean_body_def example_locate0 example_sub_gain0 getitem_def setitem_def
      corrected_amp_def Let_def del: sub_loop.simps)

lemma example_clean_gain0:
  "clean 0 2 [0, 0, 1, 0, 0] [2, 1, 2] 3
     = Inr \<lparr>clean_components = [0, 0, 0], residual = [2, 1, 2], warnings = [],
            subtracted = [[0, 0, 0], [0, 0, 0]]\<rparr>"
  by (simp add: clean_def init_state_def upt_0_2 example_body_gain0)

text \<open>
  C7. With gain 0, after any number of iterations and for every dirty spectrum and PSF,
  the components are all zero, the residual is the dirty spectrum, and every subtraction
  vector is zero.
\<close>

theorem zero_gain_noop:
  assumes "clean 0 num_iter psf amps fsize = Inr st"
  shows "clean_components st = replicate (length amps) 0 \<and> residual st = amps \<and>
         (\<forall>s\<in>set (subtracted st). s = replicate (length amps) 0)"
proof -
  have i: "untouched amps (init_state amps)" by (simp add: untouched_def init_state_def)
  have "untouched amps st"
    using assms[unfolded clean_def] i untouched_Next untouched_Break
    by (rule for_range_invariant)
  then show ?thesis by (simp add: untouched_def)
qed

theorem zero_gain_noop_witness:
  "clean 0 2 [0, 0, 1, 0, 0] [2, 1, 2] 3
     = Inr \<lparr>clean_components = [0, 0, 0], residual = [2, 1, 2], warnings = [],
            subtracted = [[0, 0, 0], [0, 0, 0]]\<rparr> \<and>
   [0, 0, 0] = replicate (length [2, 1, 2 :: complex]) (0 :: complex)"
  using zero_gain_noop[OF example_clean_gain0] example_clean_gain0 by simp

section \<open>The spectral estimator\<close>

lemma length_arange_scaled: "length (arange_scaled lo hi inc) = nat (hi - lo)"
  by (simp add: arange_scaled_def)

lemma nth_arange_scaled:
  "k < nat (hi - lo) \<Longrightarrow> arange_scaled lo hi inc ! k = real_of_int (lo + int k) * inc"
  by (simp add: arange_scaled_def)

lemma np_mul_same_length:
  "length xs = length ys \<Longrightarrow> np_mul xs ys = Inr (map2 (\<lambda>x y. complex_of_real x * y) xs ys)"
  by (simp add: np_mul_def)

lemma dft_loop_eq:
  assumes "length vals = length ts"
  shows "dft_loop ts vals fs
           = Inr (map (\<lambda>f. sum_list (map2 (\<lambda>x y. complex_of_real x * y) vals (phase f ts))) fs)"
proof (induction fs)
  case Nil
  then show ?case by simp
next
  case (Cons f fs)
  have "length vals = length (phase f ts)" using assms by (simp add: phase_def)
  from np_mul_same_length[OF this] Cons show ?case by simp
qed

lemma sum_list_map2_nth:
  assumes "length xs = length ys"
  shows "sum_list (map2 f xs ys) = (\<Sum>n = 0..<length ys. f (xs ! n) (ys ! n))"
proof -
  have "sum_list (map2 f xs ys) = (\<Sum>n = 0..<length (map2 f xs ys). map2 f xs ys ! n)"
    by (rule sum_list_sum_nth)
  also have "\<dots> = (\<Sum>n = 0..<length ys. f (xs ! n) (ys ! n))"
    using assms by (intro sum.cong) simp_all
  finally show ?thesis .
qed

lemma weighted_sum_spec:
  assumes "length vals = length ts"
  shows "sum_list (map2 (\<lambda>x y. complex_of_real x * y) vals (phase f ts)) / of_nat (length ts)
           = spectrum_spec ts vals f"
proof -
  have l: "length vals = length (phase f ts)" using assms by (simp add: phase_def)
  have "sum_list (map2 (\<lambda>x y. complex_of_real x * y) vals (phase f ts))
          = (\<Sum>n = 0..<length ts. complex_of_real (vals ! n) * phase f ts ! n)"
    using sum_list_map2_nth[OF l, of "\<lambda>x y. complex_of_real x * y"] by (simp add: phase_def)
  also have "\<dots> = (\<Sum>n = 0..<length ts. complex_of_real (vals ! n)
         * exp (- 2 * complex_of_real pi * \<i> * complex_of_real f * complex_of_real (ts ! n)))"
    by (intro sum.cong) (simp_all add: phase_def mult_ac)
  finally show ?thesis by (simp add: spectrum_spec_def)
qed

lemma unit_sum_spec:
  "sum_list (phase f ts) / of_nat (length ts) = spectrum_spec ts (replicate (length ts) 1) f"
proof -
  have "sum_list (phase f ts) = (\<Sum>n = 0..<length ts. phase f ts ! n)"
    using sum_list_sum_nth[of "phase f ts"] by (simp add: phase_def)
  also have "\<dots> = (\<Sum>n = 0..<length ts. complex_of_real (replicate (length ts) 1 ! n)
         * exp (- 2 * complex_of_real pi * \<i> * complex_of_real f * complex_of_real (ts ! n)))"
    by (intro sum.cong) (simp_all add: phase_def mult_ac)
  finally show ?thesis by (simp add: spectrum_spec_def)
qed

lemma dirty_spectrum_eq:
  assumes "ts \<noteq> []" "length vals = length ts"
  shows "dirty_spectrum ts vals num_freqs freq_inc
           = Inr (map (spectrum_spec ts vals) (freqs_grid num_freqs freq_inc))"
  using assms weighted_sum_spec[OF assms(2)]
  by (simp add: dirty_spectrum_def dft_loop_eq div_size_def)

lemma psf_spectrum_eq:
  assumes "ts \<noteq> []"
  shows "psf_spectrum ts num_freqs freq_inc
           = Inr (map (spectrum_spec ts (replicate (length ts) 1)) (freqs_psf_grid num_freqs freq_inc))"
  using assms unit_sum_spec
  by (simp add: psf_spectrum_def psf_loop_def div_size_def)

subsection \<open>The Fourier sums of a small sample set\<close>

text \<open>
  The samples at times 0, 1/4 and 3/4 on the grid with \<open>num_freqs = 1\<close> and
  \<open>freq_inc = 1\<close>: every phase is a power of \<open>\<i>\<close>.
\<close>

lemma phase_cis: "phase f ts = map (\<lambda>t. cis (- (2 * pi * f * t))) ts"
  by (simp add: phase_def cis_conv_exp mult_ac)

lemma cos_3pi_half: "cos (3 * pi / 2) = 0"
  using cos_3over2_pi by (simp add: mult.commute)

lemma sin_3pi_half: "sin (3 * pi / 2) = - 1"
  using sin_3over2_pi by (simp add: mult.commute)

lemma cos_3pi: "cos (3 * pi) = - 1"
  using cos_npi[of 3] by simp

lemma sin_3pi: "sin (3 * pi) = 0"
  using sin_npi[of 3] by simp

lemma grid3: "freqs_grid 1 1 = [- 1, 0, 1]"
  by (simp add: freqs_grid_def arange_scaled_def upto.simps)

lemma grid5: "freqs_psf_grid 1 1 = [- 2, - 1, 0, 1, 2]"
  by (simp add: freqs_psf_grid_def arange_scaled_def upto.simps)

lemma ph_m2: "phase (- 2) [0, 1 / 4, 3 / 4] = [1, - 1, - 1]"
  by (simp add: phase_cis complex_eq_iff cos_3pi sin_3pi)

lemma ph_m1: "phase (- 1) [0, 1 / 4, 3 / 4] = [1, \<i>, - \<i>]"
  by (simp add: phase_cis complex_eq_iff cos_3pi_half sin_3pi_half)

lemma ph_0: "phase 0 [0, 1 / 4, 3 / 4] = [1, 1, 1]"
  by (simp add: phase_cis complex_eq_iff)

lemma ph_1: "phase 1 [0, 1 / 4, 3 / 4] = [1, - \<i>, \<i>]"
  by (simp add: phase_cis complex_eq_iff cos_3pi_half sin_3pi_half)

lemma ph_2: "phase 2 [0, 1 / 4, 3 / 4] = [1, - 1, - 1]"
  by (simp add: phase_cis complex_eq_iff cos_3pi sin_3pi)

lemma example_dirty:
  "dirty_spectrum [0, 1 / 4, 3 / 4] [3, 0, - 3] 1 1 = Inr [1 + \<i>, 0, 1 - \<i>]"
  by (simp add: dirty_spectrum_def grid3 ph_m1 ph_0 ph_1 np_mul_def div_size_def complex_eq_iff)

lemma example_psf:
  "psf_spectrum [0, 1 / 4, 3 / 4] 1 1 = Inr [- 1 / 3, 1 / 3, 1, 1 / 3, - 1 / 3]"
  by (simp add: psf_spectrum_def psf_loop_def grid5 ph_m2 ph_m1 ph_0 ph_1 ph_2 div_size_def complex_eq_iff)

lemma example_dirty_unit:
  "dirty_spectrum [0, 1 / 4, 3 / 4] [1, 1, 1] 1 1 = Inr [1 / 3, 1, 1 / 3]"
  by (simp add: dirty_spectrum_def grid3 ph_m1 ph_0 ph_1 np_mul_def div_size_def complex_eq_iff)

lemma upto_drop_take:
  assumes "0 \<le> K"
  shows "take (nat (2 * K + 1)) (drop (nat K) [- K * 2..K * 2 + 1 - 1]) = [- K..K + 1 - 1]"
proof (rule nth_equalityI)
  show "length (take (nat (2 * K + 1)) (drop (nat K) [- K * 2..K * 2 + 1 - 1])) = length [- K..K + 1 - 1]"
    using assms by auto
next
  fix i assume "i < length (take (nat (2 * K + 1)) (drop (nat K) [- K * 2..K * 2 + 1 - 1]))"
  then have i: "i < nat (2 * K + 1)" by simp
  then show "take (nat (2 * K + 1)) (drop (nat K) [- K * 2..K * 2 + 1 - 1]) ! i = [- K..K + 1 - 1] ! i"
    using assms by simp
qed

text \<open>
  C5. For at least one sample, as many values as times, and \<open>num_freqs \<ge> 0\<close>, the
  estimator returns, at every grid frequency \<open>f\<close>, the value
  \<open>(1/N) \<Sum>\<^sub>n V[n] exp(-2\<pi>i f T[n])\<close>, and the PSF is the same sum with every \<open>V[n] = 1\<close>
  on a grid of \<open>2M - 1\<close> points with the same spacing \<open>freq_inc\<close>, where \<open>M\<close> is the number
  of points of the spectrum grid.
\<close>

theorem spectral_estimator_formula:
  assumes "ts \<noteq> []" and "length vals = length ts" and "0 \<le> num_freqs"
  shows "\<exists>amps psf.
           dirty_spectrum ts vals num_freqs freq_inc = Inr amps \<and>
           psf_spectrum ts num_freqs freq_inc = Inr psf \<and>
           length amps = length (freqs_grid num_freqs freq_inc) \<and>
           (\<forall>i<length amps.
              amps ! i = spectrum_spec ts vals (freqs_grid num_freqs freq_inc ! i)) \<and>
           length psf = length (freqs_psf_grid num_freqs freq_inc) \<and>
           length psf = 2 * length amps - 1 \<and>
           (\<forall>k<length psf.
              psf ! k = spectrum_spec ts (replicate (length ts) 1)
                          (freqs_psf_grid num_freqs freq_inc ! k)) \<and>
           (\<forall>i<length amps.
              freqs_grid num_freqs freq_inc ! i = real_of_int (int i - num_freqs) * freq_inc) \<and>
           (\<forall>k<length psf.
              freqs_psf_grid num_freqs freq_inc ! k
                = real_of_int (int k - 2 * num_freqs) * freq_inc)"
proof -
  let ?amps = "map (spectrum_spec ts vals) (freqs_grid num_freqs freq_inc)"
  let ?psf = "map (spectrum_spec ts (replicate (length ts) 1)) (freqs_psf_grid num_freqs freq_inc)"
  have la: "length ?amps = nat (2 * num_freqs + 1)"
    by (simp add: freqs_grid_def length_arange_scaled)
  have lp: "length ?psf = nat (4 * num_freqs + 1)"
    by (simp add: freqs_psf_grid_def length_arange_scaled)
  have "length ?psf = 2 * length ?amps - 1" unfolding la lp using assms(3) by auto
  moreover have "\<forall>i<length ?amps.
      freqs_grid num_freqs freq_inc ! i = real_of_int (int i - num_freqs) * freq_inc"
    using la by (simp add: freqs_grid_def nth_arange_scaled)
  moreover have "\<forall>k<length ?psf.
      freqs_psf_grid num_freqs freq_inc ! k = real_of_int (int k - 2 * num_freqs) * freq_inc"
    using lp by (simp add: freqs_psf_grid_def nth_arange_scaled)
  ultimately show ?thesis
    using dirty_spectrum_eq[OF assms(1,2)] psf_spectrum_eq[OF assms(1)] by simp
qed

theorem spectral_estimator_formula_witness:
  "[0, 1 / 4, 3 / 4 :: real] \<noteq> [] \<and> length [3, 0, - 3 :: real] = length [0, 1 / 4, 3 / 4 :: real] \<and>
   (0 :: int) \<le> 1 \<and>
   dirty_spectrum [0, 1 / 4, 3 / 4] [3, 0, - 3] 1 1 = Inr [1 + \<i>, 0, 1 - \<i>] \<and>
   psf_spectrum [0, 1 / 4, 3 / 4] 1 1 = Inr [- 1 / 3, 1 / 3, 1, 1 / 3, - 1 / 3] \<and>
   spectrum_spec [0, 1 / 4, 3 / 4] [3, 0, - 3] (freqs_grid 1 1 ! 2) = 1 - \<i> \<and>
   spectrum_spec [0, 1 / 4, 3 / 4] (replicate (length [0, 1 / 4, 3 / 4 :: real]) 1)
     (freqs_psf_grid 1 1 ! 0) = - 1 / 3"
proof -
  have a: "[0, 1 / 4, 3 / 4 :: real] \<noteq> []" by simp
  have b: "length [3, 0, - 3 :: real] = length [0, 1 / 4, 3 / 4 :: real]" by simp
  have c: "(0 :: int) \<le> 1" by simp
  from spectral_estimator_formula[OF a b c, of 1] obtain amps psf where
    d: "dirty_spectrum [0, 1 / 4, 3 / 4] [3, 0, - 3] 1 1 = Inr amps"
    and p: "psf_spectrum [0, 1 / 4, 3 / 4] 1 1 = Inr psf"
    and da: "\<forall>i<length amps. amps ! i
               = spectrum_spec [0, 1 / 4, 3 / 4] [3, 0, - 3] (freqs_grid 1 1 ! i)"
    and pa: "\<forall>k<length psf. psf ! k
               = spectrum_spec [0, 1 / 4, 3 / 4] (replicate (length [0, 1 / 4, 3 / 4 :: real]) 1)
                   (freqs_psf_grid 1 1 ! k)"
    by blast
  have ae: "amps = [1 + \<i>, 0, 1 - \<i>]" using d example_dirty by simp
  have pe: "psf = [- 1 / 3, 1 / 3, 1, 1 / 3, - 1 / 3]" using p example_psf by simp
  have "amps ! 2 = spectrum_spec [0, 1 / 4, 3 / 4] [3, 0, - 3] (freqs_grid 1 1 ! 2)"
    using da[rule_format, of 2] ae by simp
  then have s1: "spectrum_spec [0, 1 / 4, 3 / 4] [3, 0, - 3] (freqs_grid 1 1 ! 2) = 1 - \<i>"
    using ae by simp
  have "psf ! 0 = spectrum_spec [0, 1 / 4, 3 / 4] (replicate (length [0, 1 / 4, 3 / 4 :: real]) 1)
                   (freqs_psf_grid 1 1 ! 0)"
    using pa[rule_format, of 0] pe by simp
  then have s2: "spectrum_spec [0, 1 / 4, 3 / 4] (replicate (length [0, 1 / 4, 3 / 4 :: real]) 1)
     (freqs_psf_grid 1 1 ! 0) = - 1 / 3"
    using pe by simp
  from a b c example_dirty example_psf s1 s2 show ?thesis by blast
qed

text \<open>
  C8. If every sample value is 1, the dirty spectrum is the part of the PSF on the spectrum's
  grid: the \<open>M\<close> entries of the PSF from index \<open>num_freqs\<close> on. Arithmetic is exact here,
  so the equality is exact.
\<close>

theorem unit_weight_equivalence:
  assumes "ts \<noteq> []" and "length vals = length ts" and "\<forall>v\<in>set vals. v = 1"
  shows "\<exists>amps psf.
           dirty_spectrum ts vals num_freqs freq_inc = Inr amps \<and>
           psf_spectrum ts num_freqs freq_inc = Inr psf \<and>
           length amps = length (freqs_grid num_freqs freq_inc) \<and>
           amps = take (length amps) (drop (nat num_freqs) psf)"
proof -
  have v: "vals = replicate (length ts) 1"
    using assms(2,3) by (intro nth_equalityI) simp_all
  let ?g = "spectrum_spec ts (replicate (length ts) 1)"
  have a: "dirty_spectrum ts vals num_freqs freq_inc = Inr (map ?g (freqs_grid num_freqs freq_inc))"
    using dirty_spectrum_eq[OF assms(1,2)] v by simp
  have "freqs_grid num_freqs freq_inc
          = take (length (freqs_grid num_freqs freq_inc))
              (drop (nat num_freqs) (freqs_psf_grid num_freqs freq_inc))"
  proof (cases "0 \<le> num_freqs")
    case True
    from upto_drop_take[OF this] show ?thesis
      by (simp add: freqs_grid_def freqs_psf_grid_def arange_scaled_def take_map drop_map)
  next
    case False
    then show ?thesis by (simp add: freqs_grid_def arange_scaled_def)
  qed
  then have e: "map ?g (freqs_grid num_freqs freq_inc)
          = take (length (map ?g (freqs_grid num_freqs freq_inc)))
              (drop (nat num_freqs) (map ?g (freqs_psf_grid num_freqs freq_inc)))"
    by (simp add: take_map drop_map)
  have l: "length (map ?g (freqs_grid num_freqs freq_inc)) = length (freqs_grid num_freqs freq_inc)"
    by simp
  from a psf_spectrum_eq[OF assms(1)] l e show ?thesis by blast
qed

theorem unit_weight_equivalence_witness:
  "[0, 1 / 4, 3 / 4 :: real] \<noteq> [] \<and> length [1, 1, 1 :: real] = length [0, 1 / 4, 3 / 4 :: real] \<and>
   dirty_spectrum [0, 1 / 4, 3 / 4] [1, 1, 1] 1 1 = Inr [1 / 3, 1, 1 / 3] \<and>
   psf_spectrum [0, 1 / 4, 3 / 4] 1 1 = Inr [- 1 / 3, 1 / 3, 1, 1 / 3, - 1 / 3] \<and>
   [1 / 3, 1, 1 / 3] = take 3 (drop (nat 1) [- 1 / 3, 1 / 3, 1, 1 / 3, - 1 / 3 :: complex])"
proof -
  have a: "[0, 1 / 4, 3 / 4 :: real] \<noteq> []" by simp
  have b: "length [1, 1, 1 :: real] = length [0, 1 / 4, 3 / 4 :: real]" by simp
  have c: "\<forall>v\<in>set [1, 1, 1 :: real]. v = 1" by simp
  from unit_weight_equivalence[OF a b c, of 1 1] obtain amps psf where
    d: "dirty_spectrum [0, 1 / 4, 3 / 4] [1, 1, 1] 1 1 = Inr amps"
    and p: "psf_spectrum [0, 1 / 4, 3 / 4] 1 1 = Inr psf"
    and e: "amps = take (length amps) (drop (nat 1) psf)"
    by blast
  have ae: "amps = [1 / 3, 1, 1 / 3]" using d example_dirty_unit by simp
  have pe: "psf = [- 1 / 3, 1 / 3, 1, 1 / 3, - 1 / 3]" using p example_psf by simp
  have "[1 / 3, 1, 1 / 3] = take 3 (drop (nat 1) [- 1 / 3, 1 / 3, 1, 1 / 3, - 1 / 3 :: complex])"
    using e unfolding ae pe by simp
  with a b example_dirty_unit example_psf show ?thesis by blast
qed

section \<open>The clean spectrum\<close>








end
